theory Spec2Isabelle
  imports Main "HOL-Library.Sublist" "HOL-Library.Multiset"
begin

section \<open>Syntax nodes\<close>

text \<open>
  The program reads \<^verbatim>\<open>go/ast\<close> nodes by type switch. The datatype has one constructor for
  each node type the program distinguishes, with the fields it reads, and \<open>OtherNode\<close> for
  every other node type. Expressions and statements share the type, as both implement
  \<^verbatim>\<open>ast.Node\<close>. The field \<^verbatim>\<open>Call\<close> of a defer statement has the Go type
  \<^verbatim>\<open>*ast.CallExpr\<close>, so \<open>DeferStmt\<close> carries the two fields of that call.
\<close>

datatype token = NOT | EQL | NEQ | LSS | GTR | LEQ | GEQ | LAND | LOR | INC | DEC | OtherTok

datatype node =
    Ident string
  | SelectorExpr node string
  | CallExpr node "node list"
  | UnaryExpr token node
  | BinaryExpr node token node
  | ExprStmt node
  | AssignStmt "node list" "node list"
  | DeferStmt node "node list"
  | IncDecStmt node token
  | ReturnStmt "node list"
  | OtherNode string

section \<open>The noise filter\<close>

text \<open>
  The type switch of \<^verbatim>\<open>filterNoise\<close>: the expression at the head of the node, \<open>None\<close>
  where the Go variable \<^verbatim>\<open>expr\<close> stays nil.
\<close>

fun headExpr :: "node \<Rightarrow> node option" where
  "headExpr (ExprStmt x) = Some x"
| "headExpr (AssignStmt lhs rhs) = (if length rhs = 1 then Some (rhs ! 0) else None)"
| "headExpr (DeferStmt f args) = Some (CallExpr f args)"
| "headExpr n = None"

definition denylisted :: "string \<Rightarrow> bool" where
  "denylisted name \<longleftrightarrow>
     name = ''metrics'' \<or> name = ''span'' \<or> name = ''tracing'' \<or> name = ''log'' \<or> name = ''logger''"

text \<open>The three nested type assertions on \<^verbatim>\<open>expr\<close>.\<close>

fun noiseCall :: "node option \<Rightarrow> bool" where
  "noiseCall (Some (CallExpr (SelectorExpr (Ident name) sel) args)) = denylisted name"
| "noiseCall e = False"

definition isNoise :: "node \<Rightarrow> bool" where
  "isNoise n = noiseCall (headExpr n)"

text \<open>The loop of \<^verbatim>\<open>filterNoise\<close>, with the slice \<^verbatim>\<open>keep\<close> as accumulator.\<close>

fun filterNoise_loop :: "node list \<Rightarrow> node list \<Rightarrow> node list" where
  "filterNoise_loop keep [] = keep"
| "filterNoise_loop keep (n # ns) =
     filterNoise_loop (if \<not> isNoise n then keep @ [n] else keep) ns"

definition filterNoise :: "node list \<Rightarrow> node list" where
  "filterNoise nodes = filterNoise_loop [] nodes"

text \<open>
  The three droppable shapes in the words of the specification: a bare expression
  statement, an assignment with a single target and a single source, a deferred call;
  each with a call at its head whose callee selects from a denylisted bare identifier.
\<close>

fun spec_noise :: "node \<Rightarrow> bool" where
  "spec_noise (ExprStmt (CallExpr (SelectorExpr (Ident name) sel) args)) = denylisted name"
| "spec_noise (AssignStmt [l] [CallExpr (SelectorExpr (Ident name) sel) args]) = denylisted name"
| "spec_noise (DeferStmt (SelectorExpr (Ident name) sel) args) = denylisted name"
| "spec_noise n = False"

text \<open>
  The shapes the code drops: as above, but the assignment may have any number of
  targets, as long as it has exactly one source.
\<close>

fun code_noise :: "node \<Rightarrow> bool" where
  "code_noise (ExprStmt (CallExpr (SelectorExpr (Ident name) sel) args)) = denylisted name"
| "code_noise (AssignStmt lhs [CallExpr (SelectorExpr (Ident name) sel) args]) = denylisted name"
| "code_noise (DeferStmt (SelectorExpr (Ident name) sel) args) = denylisted name"
| "code_noise n = False"

section \<open>The expression humanizer\<close>

text \<open>
  Strings are byte strings, as in Go, where \<^verbatim>\<open>len\<close> and slicing count bytes.
  \<^verbatim>\<open>strings.Join\<close> of the standard library:
\<close>

fun Join :: "string list \<Rightarrow> string \<Rightarrow> string" where
  "Join [] sep = []"
| "Join [x] sep = x"
| "Join (x # y # zs) sep = x @ sep @ Join (y # zs) sep"

text \<open>
  \<^verbatim>\<open>printRawNode\<close> calls \<^verbatim>\<open>go/printer\<close>, which is not part of the repository: the
  functions below take it as the parameter \<open>pr\<close>, the printer of the file set in use.
  A \<^verbatim>\<open>case\<close> of the Go switch that does not return falls out of the switch, to the
  final \<^verbatim>\<open>printRawNode(fset, n)\<close>.
\<close>

fun toNaturalLanguage :: "(node \<Rightarrow> string) \<Rightarrow> node \<Rightarrow> string" where
  "toNaturalLanguage pr (UnaryExpr op x) =
     (if op = NOT then pr x @ '' is false'' else pr (UnaryExpr op x))"
| "toNaturalLanguage pr (BinaryExpr x op y) =
     (let left = pr x; right = pr y in
      case op of
        EQL \<Rightarrow> left @ '' equals '' @ right
      | NEQ \<Rightarrow> left @ '' does not equal '' @ right
      | LSS \<Rightarrow> left @ '' is less than '' @ right
      | GTR \<Rightarrow> left @ '' is greater than '' @ right
      | LEQ \<Rightarrow> left @ '' is at most '' @ right
      | GEQ \<Rightarrow> left @ '' is at least '' @ right
      | LAND \<Rightarrow> left @ '' AND '' @ right
      | LOR \<Rightarrow> left @ '' OR '' @ right
      | _ \<Rightarrow> pr (BinaryExpr x op y))"
| "toNaturalLanguage pr (AssignStmt lhs rhs) =
     (if length lhs = 1 \<and> length rhs = 1
      then ''Set '' @ pr (lhs ! 0) @ '' to '' @ pr (rhs ! 0)
      else pr (AssignStmt lhs rhs))"
| "toNaturalLanguage pr (IncDecStmt x tok) =
     (if tok = INC then ''Increase '' @ pr x @ '' by 1''
      else if tok = DEC then ''Decrease '' @ pr x @ '' by 1''
      else pr (IncDecStmt x tok))"
| "toNaturalLanguage pr (ReturnStmt results) =
     (if length results > 0 then ''Return '' @ Join (map pr results) '', '' else ''Return'')"
| "toNaturalLanguage pr n = pr n"

section \<open>The label formatter\<close>

abbreviation nl :: char where "nl \<equiv> CHR 0x0A"
abbreviation tab :: char where "tab \<equiv> CHR 0x09"
abbreviation dquote :: char where "dquote \<equiv> CHR 0x22"
abbreviation squote :: char where "squote \<equiv> CHR 0x27"

text \<open>
  \<^verbatim>\<open>strings.ReplaceAll\<close>: the occurrences of \<open>old\<close> are replaced from the left, without
  overlap. The program calls it with one-byte patterns only; for the empty pattern
  (where Go inserts \<open>new\<close> around every rune) the model leaves the string as it is.
\<close>

fun ReplaceAll :: "string \<Rightarrow> string \<Rightarrow> string \<Rightarrow> string" where
  "ReplaceAll [] old new = []"
| "ReplaceAll (c # cs) old new =
     (if old \<noteq> [] \<and> prefix old (c # cs)
      then new @ ReplaceAll (drop (length old) (c # cs)) old new
      else c # ReplaceAll cs old new)"

text \<open>
  \<^verbatim>\<open>strings.TrimSpace\<close> removes the leading and the trailing white space runes of a
  string, white space as \<^verbatim>\<open>unicode.IsSpace\<close> defines it: six ASCII bytes, U+0085, U+00A0,
  U+1680, U+2000 to U+200A, U+2028, U+2029, U+202F, U+205F and U+3000, here in their
  UTF-8 encodings. \<open>runeWidth R s\<close> is the width of the rune of \<open>R\<close> at the head of \<open>s\<close>,
  or 0; the trailing runes are trimmed as the leading runes of the reversed string.
\<close>

definition spaceRunes :: "string list" where
  "spaceRunes =
     [[CHR 0x09], [CHR 0x0A], [CHR 0x0B], [CHR 0x0C], [CHR 0x0D], [CHR 0x20],
      [CHR 0xC2, CHR 0x85], [CHR 0xC2, CHR 0xA0],
      [CHR 0xE1, CHR 0x9A, CHR 0x80],
      [CHR 0xE2, CHR 0x80, CHR 0x80], [CHR 0xE2, CHR 0x80, CHR 0x81],
      [CHR 0xE2, CHR 0x80, CHR 0x82], [CHR 0xE2, CHR 0x80, CHR 0x83],
      [CHR 0xE2, CHR 0x80, CHR 0x84], [CHR 0xE2, CHR 0x80, CHR 0x85],
      [CHR 0xE2, CHR 0x80, CHR 0x86], [CHR 0xE2, CHR 0x80, CHR 0x87],
      [CHR 0xE2, CHR 0x80, CHR 0x88], [CHR 0xE2, CHR 0x80, CHR 0x89],
      [CHR 0xE2, CHR 0x80, CHR 0x8A],
      [CHR 0xE2, CHR 0x80, CHR 0xA8], [CHR 0xE2, CHR 0x80, CHR 0xA9],
      [CHR 0xE2, CHR 0x80, CHR 0xAF], [CHR 0xE2, CHR 0x81, CHR 0x9F],
      [CHR 0xE3, CHR 0x80, CHR 0x80]]"

definition runeWidth :: "string list \<Rightarrow> string \<Rightarrow> nat" where
  "runeWidth R s =
     (if s = [] then 0
      else if take 1 s \<in> set R then 1
      else if take 2 s \<in> set R then 2
      else if take 3 s \<in> set R then 3
      else 0)"

function trimLeftBy :: "string list \<Rightarrow> string \<Rightarrow> string" where
  "trimLeftBy R s = (if runeWidth R s = 0 then s else trimLeftBy R (drop (runeWidth R s) s))"
  by pat_completeness auto
termination
  by (relation "measure (\<lambda>(R, s). length s)") (auto simp: runeWidth_def split: if_splits)

definition TrimSpace :: "string \<Rightarrow> string" where
  "TrimSpace s = rev (trimLeftBy (map rev spaceRunes) (rev (trimLeftBy spaceRunes s)))"

text \<open>The five replacements of the loop body of \<^verbatim>\<open>formatNodes\<close>, in its order.\<close>

definition cleanPhrase :: "string \<Rightarrow> string" where
  "cleanPhrase s0 =
     (let s = ReplaceAll s0 [nl] '' '';
          s = ReplaceAll s [tab] '''';
          s = ReplaceAll s [dquote] [squote];
          s = ReplaceAll s ''{'' '''';
          s = ReplaceAll s ''}'' ''''
      in s)"

text \<open>The cut at 80 bytes: \<^verbatim>\<open>if len(s) > 80 { s = s[:77] + "..." }\<close>.\<close>

definition capPhrase :: "string \<Rightarrow> string" where
  "capPhrase s = (if length s > 80 then take 77 s @ ''...'' else s)"

text \<open>What the loop body appends to \<^verbatim>\<open>lines\<close> for a phrase: the trimmed, cut, cleaned phrase.\<close>

definition formatPhrase :: "string \<Rightarrow> string" where
  "formatPhrase s = TrimSpace (capPhrase (cleanPhrase s))"

fun formatNodes_loop :: "(node \<Rightarrow> string) \<Rightarrow> string list \<Rightarrow> node list \<Rightarrow> string list" where
  "formatNodes_loop pr lines [] = lines"
| "formatNodes_loop pr lines (n # ns) =
     formatNodes_loop pr (lines @ [formatPhrase (toNaturalLanguage pr n)]) ns"

definition formatNodes :: "(node \<Rightarrow> string) \<Rightarrow> node list \<Rightarrow> string" where
  "formatNodes pr nodes = Join (formatNodes_loop pr [] nodes) ''<br>''"

text \<open>
  What the formatter does to one byte of a phrase, following the code: a newline becomes
  a space, a tab and a brace disappear, a double quote becomes a single quote.
\<close>

fun cleanChar :: "char \<Rightarrow> string" where
  "cleanChar c =
     (if c = nl then '' '' else if c = tab then '''' else if c = dquote then [squote]
      else if c = CHR ''{'' \<or> c = CHR ''}'' then '''' else [c])"

section \<open>The block graph\<close>

text \<open>
  A \<^verbatim>\<open>cfg.Block\<close> with the three fields the program reads. The graph is the slice
  \<^verbatim>\<open>flowGraph.Blocks\<close>; a pointer \<^verbatim>\<open>*cfg.Block\<close> is the position of the block in that
  slice, so \<open>Succs\<close> holds positions and \<open>g ! a\<close> dereferences the pointer \<open>a\<close>.
  \<^verbatim>\<open>Index\<close> is an \<^verbatim>\<open>int32\<close> that the program only compares and prints.
\<close>

record block =
  Nodes :: "node list"
  Succs :: "nat list"
  Index :: int

type_synonym cfg = "block list"

text \<open>
  What the builder of \<^verbatim>\<open>golang.org/x/tools/go/cfg\<close> guarantees, and what Go's pointers
  guarantee: a block's index is its position in \<^verbatim>\<open>Blocks\<close>, and every successor is a
  block of the graph.
\<close>

definition wf_cfg :: "cfg \<Rightarrow> bool" where
  "wf_cfg g =
     list_all (\<lambda>i. Index (g ! i) = int i \<and> list_all (\<lambda>s. s < length g) (Succs (g ! i)))
       [0..<length g]"

text \<open>The verb \<^verbatim>\<open>%d\<close> of \<^verbatim>\<open>fmt.Sprintf\<close>: an integer in decimal.\<close>

definition digit :: "nat \<Rightarrow> char" where
  "digit d = char_of (48 + d)"

fun showNat :: "nat \<Rightarrow> string" where
  "showNat n = (if n < 10 then [digit n] else showNat (n div 10) @ [digit (n mod 10)])"

definition showInt :: "int \<Rightarrow> string" where
  "showInt i = (if i < 0 then CHR ''-'' # showNat (nat (- i)) else showNat (nat i))"

definition getEntryPoint :: "block \<Rightarrow> string" where
  "getEntryPoint b =
     (if length (Nodes b) > 1 \<and> length (Succs b) = 2
      then ''B'' @ showInt (Index b) @ ''_setup''
      else ''B'' @ showInt (Index b))"

definition isEmptyPassThrough :: "block \<Rightarrow> bool" where
  "isEmptyPassThrough b \<longleftrightarrow> length (Nodes b) = 0 \<and> length (Succs b) = 1"

text \<open>
  The loop of \<^verbatim>\<open>resolveDestination\<close>. The map \<^verbatim>\<open>visited\<close> only ever stores
  \<^verbatim>\<open>true\<close> and reads \<^verbatim>\<open>false\<close> at a missing key: it is the set of its keys. A position
  outside the graph has no counterpart in Go; the loop stops there.
\<close>

function resolve_loop :: "cfg \<Rightarrow> int set \<Rightarrow> nat \<Rightarrow> nat" where
  "resolve_loop g visited cur =
     (if cur < length g \<and> isEmptyPassThrough (g ! cur) then
        (if Index (g ! cur) \<in> visited then cur
         else resolve_loop g (insert (Index (g ! cur)) visited) (Succs (g ! cur) ! 0))
      else cur)"
  by pat_completeness auto
termination
proof (relation "measure (\<lambda>(g, visited, cur). card (Index ` set g - visited))")
  show "wf (measure (\<lambda>(g, visited, cur). card (Index ` set g - visited)))"
    by simp
next
  fix g :: cfg and visited :: "int set" and cur :: nat
  assume a: "cur < length g \<and> isEmptyPassThrough (g ! cur)" "Index (g ! cur) \<notin> visited"
  then have mem: "Index (g ! cur) \<in> Index ` set g - visited" by simp
  have fin: "finite (Index ` set g - visited)" by simp
  have eq: "Index ` set g - insert (Index (g ! cur)) visited
      = (Index ` set g - visited) - {Index (g ! cur)}"
    by auto
  have "card (Index ` set g - insert (Index (g ! cur)) visited)
      < card (Index ` set g - visited)"
    unfolding eq by (rule card_Diff1_less [OF fin mem])
  then show "((g, insert (Index (g ! cur)) visited, Succs (g ! cur) ! 0), (g, visited, cur))
      \<in> measure (\<lambda>(g, visited, cur). card (Index ` set g - visited))"
    by simp
qed

definition resolveDestination :: "cfg \<Rightarrow> nat \<Rightarrow> nat" where
  "resolveDestination g b = resolve_loop g {} b"

fun getStructuralLabel :: "block \<Rightarrow> string" where
  "getStructuralLabel block =
     (if Index block = 0 then ''Start''
      else if length (Succs block) = 0 then ''End / Return''
      else if length (Succs block) = 2 then ''Loop / Switch Entry''
      else ''Merge Point'')"

section \<open>The diagram renderer\<close>

text \<open>
  Every \<^verbatim>\<open>buf.WriteString\<close> of \<^verbatim>\<open>analyzeCFG\<close> writes one line. The buffer is the list
  of the lines written, each with the arguments of its format, and \<open>lineText\<close> is the
  text that \<^verbatim>\<open>fmt.Sprintf\<close> gives the line: a node declaration
  \<^verbatim>\<open>B%d%s%s%s%s;\<close> (identifier, opening shape, label, closing shape, class) and an
  edge \<^verbatim>\<open>%s %s %s;\<close> (source, arrow, target).
\<close>

datatype line =
    Raw string
  | RootDecl string
  | NodeDecl string string string string string
  | Edge string string string


text \<open>The node declarations of one block: lines 102 to 127 of the loop body.\<close>

definition nodeLines :: "(node \<Rightarrow> string) \<Rightarrow> block \<Rightarrow> line list" where
  "nodeLines pr block =
     (let isSplit = length (Nodes block) > 1 \<and> length (Succs block) = 2 in
      if isSplit then
        (let setupLabel = formatNodes pr (take (length (Nodes block) - 1) (Nodes block));
             condLabel = formatNodes pr (drop (length (Nodes block) - 1) (Nodes block))
         in [NodeDecl (''B'' @ showInt (Index block) @ ''_setup'')
               (''['' @ [dquote]) setupLabel ([dquote] @ '']'') '''',
             NodeDecl (''B'' @ showInt (Index block))
               (''{'' @ [dquote]) condLabel ([dquote] @ ''}'') '''',
             Edge (''B'' @ showInt (Index block) @ ''_setup'') ''-->''
               (''B'' @ showInt (Index block))])
      else
        (let label = formatNodes pr (Nodes block);
             label = (if length (Nodes block) = 0 then getStructuralLabel block else label);
             shapeStart = (if length (Succs block) = 2 then ''{'' @ [dquote] else ''['' @ [dquote]);
             shapeEnd = (if length (Succs block) = 2 then [dquote] @ ''}'' else [dquote] @ '']'');
             classStr = (if length (Succs block) = 0 then '':::endNode'' else '''')
         in [NodeDecl (''B'' @ showInt (Index block)) shapeStart label shapeEnd classStr]))"

text \<open>The edges of one block to its successors: lines 129 to 153 of the loop body.\<close>

definition edgeLines :: "cfg \<Rightarrow> block \<Rightarrow> line list" where
  "edgeLines g block =
     (let exitPoint = ''B'' @ showInt (Index block) in
      if length (Succs block) = 1 then
        (let dest = g ! resolveDestination g (Succs block ! 0);
             arrow = (if Index dest \<le> Index block then ''-.->|Loop|'' else ''-->'')
         in [Edge exitPoint arrow (getEntryPoint dest)])
      else if length (Succs block) = 2 then
        (let destTrue = g ! resolveDestination g (Succs block ! 0);
             destFalse = g ! resolveDestination g (Succs block ! 1);
             arrowTrue = (if Index destTrue \<le> Index block then ''-.->|Loop True|'' else ''-->|True|'');
             arrowFalse = (if Index destFalse \<le> Index block then ''-.->|Loop False|'' else ''-->|False|'')
         in [Edge exitPoint arrowTrue (getEntryPoint destTrue),
             Edge exitPoint arrowFalse (getEntryPoint destFalse)])
      else [])"

text \<open>The loop over \<^verbatim>\<open>flowGraph.Blocks\<close>, with the buffer as accumulator.\<close>

fun blockLoop :: "(node \<Rightarrow> string) \<Rightarrow> cfg \<Rightarrow> line list \<Rightarrow> block list \<Rightarrow> line list" where
  "blockLoop pr g buf [] = buf"
| "blockLoop pr g buf (block # rest) =
     (if isEmptyPassThrough block then blockLoop pr g buf rest
      else blockLoop pr g (buf @ nodeLines pr block @ edgeLines g block) rest)"

datatype error = LoadFailed | NotFound string | IndexOutOfRange

text \<open>
  Lines 86 to 156: the rendering of a filtered graph. \<^verbatim>\<open>flowGraph.Blocks[0]\<close> panics
  on an empty slice.
\<close>

definition renderLines :: "(node \<Rightarrow> string) \<Rightarrow> string \<Rightarrow> cfg \<Rightarrow> error + line list" where
  "renderLines pr startFunc g =
     (let buf = [Raw (''    classDef root fill:#007acc,stroke:#fff,stroke-width:2px,color:#fff;'' @ [nl]),
                 Raw (''    classDef endNode fill:#cc3300,stroke:#fff,stroke-width:2px,color:#fff;'' @ [nl, nl]),
                 RootDecl startFunc]
      in if g = [] then Inl IndexOutOfRange
         else
           (let firstBlock = g ! resolveDestination g 0;
                buf = buf @ [Edge ''ROOT'' ''-->'' (getEntryPoint firstBlock)]
            in Inr (blockLoop pr g buf g)))"

section \<open>Finding the function and running the pipeline\<close>








section \<open>Notions for stating the properties\<close>

text \<open>
  The successor that \<^verbatim>\<open>resolveDestination\<close> follows from a pass-through block, a
  pass-through block of the graph, and a block on a cycle of pass-through blocks: after
  \<open>m\<close> steps, \<open>1 \<le> m \<le> length g\<close>, the walk is back at the block and has met
  pass-through blocks only.
\<close>

definition nxt :: "cfg \<Rightarrow> nat \<Rightarrow> nat" where
  "nxt g a = Succs (g ! a) ! 0"

definition passThrough :: "cfg \<Rightarrow> nat \<Rightarrow> bool" where
  "passThrough g a \<longleftrightarrow> a < length g \<and> isEmptyPassThrough (g ! a)"

definition ptCycle :: "cfg \<Rightarrow> nat \<Rightarrow> bool" where
  "ptCycle g a \<longleftrightarrow>
     list_ex (\<lambda>m. (nxt g ^^ m) a = a \<and> list_all (\<lambda>i. passThrough g ((nxt g ^^ i) a)) [0..<m])
       [1..<Suc (length g)]"

text \<open>What one pass of the loop body writes for a block.\<close>

definition renderBlock :: "(node \<Rightarrow> string) \<Rightarrow> cfg \<Rightarrow> block \<Rightarrow> line list" where
  "renderBlock pr g block =
     (if isEmptyPassThrough block then [] else nodeLines pr block @ edgeLines g block)"

text \<open>The lines before the loop: the two style classes, the root node and its edge.\<close>

definition prologue :: "string \<Rightarrow> cfg \<Rightarrow> line list" where
  "prologue startFunc g =
     [Raw (''    classDef root fill:#007acc,stroke:#fff,stroke-width:2px,color:#fff;'' @ [nl]),
      Raw (''    classDef endNode fill:#cc3300,stroke:#fff,stroke-width:2px,color:#fff;'' @ [nl, nl]),
      RootDecl startFunc,
      Edge ''ROOT'' ''-->'' (getEntryPoint (g ! resolveDestination g 0))]"

text \<open>The two identifiers a block can be declared under, and what a line declares or targets.\<close>

definition blockIds :: "block \<Rightarrow> string set" where
  "blockIds b = {''B'' @ showInt (Index b), ''B'' @ showInt (Index b) @ ''_setup''}"

fun declared :: "line \<Rightarrow> string option" where
  "declared (NodeDecl ident shapeStart label shapeEnd classStr) = Some ident"
| "declared l = None"

fun edgeTarget :: "line \<Rightarrow> string option" where
  "edgeTarget (Edge src arrow dst) = Some dst"
| "edgeTarget l = None"

text \<open>
  The classification of an edge in the words of the specification: a function of the
  index of the source, the index of the resolved target and the branch.
\<close>

datatype branch = Plain | BranchTrue | BranchFalse

fun loopArrow :: "branch \<Rightarrow> string" where
  "loopArrow Plain = ''-.->|Loop|''"
| "loopArrow BranchTrue = ''-.->|Loop True|''"
| "loopArrow BranchFalse = ''-.->|Loop False|''"

fun forwardArrow :: "branch \<Rightarrow> string" where
  "forwardArrow Plain = ''-->''"
| "forwardArrow BranchTrue = ''-->|True|''"
| "forwardArrow BranchFalse = ''-->|False|''"

definition classifyEdge :: "int \<Rightarrow> int \<Rightarrow> branch \<Rightarrow> string" where
  "classifyEdge src tgt br = (if tgt \<le> src then loopArrow br else forwardArrow br)"

fun branches :: "nat list \<Rightarrow> (branch \<times> nat) list" where
  "branches [s] = [(Plain, s)]"
| "branches [s, t] = [(BranchTrue, s), (BranchFalse, t)]"
| "branches ss = []"

definition successorEdge :: "cfg \<Rightarrow> block \<Rightarrow> branch \<times> nat \<Rightarrow> line" where
  "successorEdge g block bs =
     Edge (''B'' @ showInt (Index block))
       (classifyEdge (Index block) (Index (g ! resolveDestination g (snd bs))) (fst bs))
       (getEntryPoint (g ! resolveDestination g (snd bs)))"




text \<open>Graphs and a printer for concrete inputs.\<close>

fun identPrinter :: "unit \<Rightarrow> node \<Rightarrow> string" where
  "identPrinter u (Ident s) = s"
| "identPrinter u (OtherNode s) = s"
| "identPrinter u n = ''_''"


text \<open>
  \<^verbatim>\<open>for { }\<close>: the entry block jumps to the empty body, the body jumps to itself, and the
  block after the loop is unreachable.
\<close>

definition graphForever :: cfg where
  "graphForever =
     [\<lparr>Nodes = [], Succs = [1], Index = 0\<rparr>,
      \<lparr>Nodes = [], Succs = [1], Index = 1\<rparr>,
      \<lparr>Nodes = [], Succs = [], Index = 2\<rparr>]"

text \<open>
  \<^verbatim>\<open>for i := 0; i < n; i++ { log.Print(i) }\<close> after the noise filter: the body (block 1)
  is an empty pass-through block, and the edge of the post block (block 4) to the loop
  header (block 3) points back.
\<close>

definition graphLoop :: cfg where
  "graphLoop =
     [\<lparr>Nodes = [AssignStmt [Ident ''i''] [OtherNode ''0'']], Succs = [3], Index = 0\<rparr>,
      \<lparr>Nodes = [], Succs = [4], Index = 1\<rparr>,
      \<lparr>Nodes = [ReturnStmt []], Succs = [], Index = 2\<rparr>,
      \<lparr>Nodes = [BinaryExpr (Ident ''i'') LSS (Ident ''n'')], Succs = [1, 2], Index = 3\<rparr>,
      \<lparr>Nodes = [IncDecStmt (Ident ''i'') INC], Succs = [3], Index = 4\<rparr>]"





fun isEdge :: "line \<Rightarrow> bool" where
  "isEdge (Edge src arrow dst) = True"
| "isEdge l = False"

text \<open>
  The graph of \<^verbatim>\<open>if x := y; x > 0 { return 1 }; return 0\<close>: the entry block holds the
  set-up statement and the condition; blocks 3 and 4 are the unreachable blocks after the
  two return statements.
\<close>

definition graphSetup :: cfg where
  "graphSetup =
     [\<lparr>Nodes = [AssignStmt [Ident ''x''] [Ident ''y''],
                BinaryExpr (Ident ''x'') GTR (OtherNode ''0'')],
       Succs = [1, 2], Index = 0\<rparr>,
      \<lparr>Nodes = [ReturnStmt [OtherNode ''1'']], Succs = [], Index = 1\<rparr>,
      \<lparr>Nodes = [ReturnStmt [OtherNode ''0'']], Succs = [], Index = 2\<rparr>,
      \<lparr>Nodes = [], Succs = [2], Index = 3\<rparr>,
      \<lparr>Nodes = [], Succs = [], Index = 4\<rparr>]"

section \<open>Properties of the noise filter\<close>

lemma filterNoise_loop_filter:
  "filterNoise_loop keep ns = keep @ filter (\<lambda>n. \<not> isNoise n) ns"
  by (induction ns arbitrary: keep) simp_all

lemma isNoise_code_noise: "isNoise n = code_noise n"
  unfolding isNoise_def
  by (induction n rule: code_noise.induct) simp_all

text \<open>
  C2 (as amended). The noise filter returns a subsequence of its input in the original
  order; it drops a node exactly when the node is an expression statement, an assignment
  with exactly one source (and any number of targets) or a deferred call, whose head is a
  call of a selector on a bare identifier of the denylist, and keeps every other node.
\<close>

theorem filterNoise_drops_code_noise:
  "filterNoise nodes = filter (\<lambda>n. \<not> code_noise n) nodes \<and> subseq (filterNoise nodes) nodes"
  by (simp add: filterNoise_def filterNoise_loop_filter isNoise_code_noise)

text \<open>
  C2 as stated fails: an assignment with two targets and one source, a denylisted call,
  is none of the three shapes of the specification, and the filter drops it.
\<close>

theorem filterNoise_two_targets_counterexample:
  "\<not> spec_noise (AssignStmt [Ident ''ctx'', Ident ''sp'']
        [CallExpr (SelectorExpr (Ident ''tracing'') ''Start'') [Ident ''ctx'']])
   \<and> filterNoise [AssignStmt [Ident ''ctx'', Ident ''sp'']
        [CallExpr (SelectorExpr (Ident ''tracing'') ''Start'') [Ident ''ctx'']]] = []"
  by (simp add: filterNoise_def isNoise_def denylisted_def)

section \<open>Properties of the label formatter\<close>

declare trimLeftBy.simps [simp del]

lemma ReplaceAll_single:
  "ReplaceAll s [c] new = concat (map (\<lambda>x. if x = c then new else [x]) s)"
  by (induction s) auto

lemma cleanPhrase_concat: "cleanPhrase s = concat (map cleanChar s)"
  unfolding cleanPhrase_def Let_def ReplaceAll_single
  by (induction s) simp_all












text \<open>
  C7 (as amended). The formatter replaces each newline of a phrase with one space,
  deletes each tab and each brace, replaces each double quote with a single quote, cuts
  the result at 80 bytes and trims surrounding white space.
\<close>

theorem formatPhrase_clean:
  "formatPhrase s = TrimSpace (capPhrase (concat (map cleanChar s)))"
  by (simp add: formatPhrase_def cleanPhrase_concat)

text \<open>
  C7 as stated fails: two words separated only by a tab are joined, with no space
  between them.
\<close>

theorem formatPhrase_tab_counterexample:
  "formatPhrase (''a'' @ [tab] @ ''b'') = ''ab''
   \<and> formatPhrase (''a'' @ [tab] @ ''b'') \<noteq> ''a b''"
  by code_simp

section \<open>Properties of the pass-through resolution\<close>

lemma wf_cfg_iff:
  "wf_cfg g \<longleftrightarrow> (\<forall>i < length g. Index (g ! i) = int i \<and> (\<forall>s \<in> set (Succs (g ! i)). s < length g))"
  by (auto simp: wf_cfg_def list_all_iff)

lemma wf_cfg_Index: "wf_cfg g \<Longrightarrow> i < length g \<Longrightarrow> Index (g ! i) = int i"
  by (simp add: wf_cfg_iff)

lemma nxt_in_graph: "wf_cfg g \<Longrightarrow> passThrough g a \<Longrightarrow> nxt g a < length g"
  by (auto simp: wf_cfg_iff passThrough_def isEmptyPassThrough_def nxt_def length_Suc_conv)

declare resolve_loop.simps [simp del]

lemma resolve_loop_stop:
  "\<not> passThrough g c \<or> Index (g ! c) \<in> V \<Longrightarrow> resolve_loop g V c = c"
  by (subst resolve_loop.simps) (auto simp: passThrough_def)

lemma resolve_loop_step:
  "passThrough g c \<Longrightarrow> Index (g ! c) \<notin> V \<Longrightarrow>
   resolve_loop g V c = resolve_loop g (insert (Index (g ! c)) V) (nxt g c)"
  by (subst resolve_loop.simps) (auto simp: passThrough_def nxt_def)

text \<open>Walking along fresh pass-through blocks.\<close>

lemma resolve_loop_walk:
  assumes "\<forall>i<m. passThrough g ((nxt g ^^ i) c)"
    and "\<forall>i<m. Index (g ! ((nxt g ^^ i) c)) \<notin> V"
    and "\<forall>i<m. \<forall>j<i. Index (g ! ((nxt g ^^ j) c)) \<noteq> Index (g ! ((nxt g ^^ i) c))"
  shows "resolve_loop g V c
    = resolve_loop g (V \<union> (\<lambda>i. Index (g ! ((nxt g ^^ i) c))) ` {..<m}) ((nxt g ^^ m) c)"
  using assms
proof (induction m arbitrary: V c)
  case 0
  then show ?case by simp
next
  case (Suc m)
  let ?V = "insert (Index (g ! c)) V"
  have c: "passThrough g c" "Index (g ! c) \<notin> V"
    using Suc.prems(1,2) by (metis funpow_0 zero_less_Suc)+
  have shift: "(nxt g ^^ i) (nxt g c) = (nxt g ^^ Suc i) c" for i
    by (simp add: funpow_swap1)
  have p1: "\<forall>i<m. passThrough g ((nxt g ^^ i) (nxt g c))"
    using Suc.prems(1) unfolding shift by auto
  have p2: "\<forall>i<m. Index (g ! ((nxt g ^^ i) (nxt g c))) \<notin> ?V"
  proof (intro allI impI)
    fix i assume "i < m"
    then have "Index (g ! ((nxt g ^^ Suc i) c)) \<notin> V" "Index (g ! ((nxt g ^^ 0) c)) \<noteq> Index (g ! ((nxt g ^^ Suc i) c))"
      using Suc.prems(2,3) by (metis Suc_less_eq zero_less_Suc)+
    then show "Index (g ! ((nxt g ^^ i) (nxt g c))) \<notin> ?V"
      unfolding shift by auto
  qed
  have p3: "\<forall>i<m. \<forall>j<i. Index (g ! ((nxt g ^^ j) (nxt g c))) \<noteq> Index (g ! ((nxt g ^^ i) (nxt g c)))"
    unfolding shift using Suc.prems(3) by (meson Suc_less_eq)
  have img: "?V \<union> (\<lambda>i. Index (g ! ((nxt g ^^ Suc i) c))) ` {..<m}
      = V \<union> (\<lambda>i. Index (g ! ((nxt g ^^ i) c))) ` {..<Suc m}"
  proof -
    have "{..<Suc m} = insert 0 (Suc ` {..<m})"
      by (auto simp: lessThan_Suc_eq_insert_0)
    then show ?thesis by (auto simp: image_iff)
  qed
  have "resolve_loop g V c = resolve_loop g ?V (nxt g c)"
    using c by (rule resolve_loop_step)
  also have "\<dots> = resolve_loop g (?V \<union> (\<lambda>i. Index (g ! ((nxt g ^^ i) (nxt g c)))) ` {..<m})
      ((nxt g ^^ m) (nxt g c))"
    by (rule Suc.IH [OF p1 p2 p3])
  finally show ?case unfolding shift img .
qed


text \<open>Where the loop stops: after \<open>k\<close> steps along fresh pass-through blocks.\<close>

lemma resolve_loop_char:
  "\<exists>k. resolve_loop g V c = (nxt g ^^ k) c
     \<and> (\<forall>i<k. passThrough g ((nxt g ^^ i) c) \<and> Index (g ! ((nxt g ^^ i) c)) \<notin> V)
     \<and> (\<forall>i<k. \<forall>j<i. Index (g ! ((nxt g ^^ j) c)) \<noteq> Index (g ! ((nxt g ^^ i) c)))
     \<and> (\<not> passThrough g ((nxt g ^^ k) c)
          \<or> Index (g ! ((nxt g ^^ k) c)) \<in> V \<union> (\<lambda>i. Index (g ! ((nxt g ^^ i) c))) ` {..<k})"
proof (induction g V c rule: resolve_loop.induct)
  case (1 g V c)
  show ?case
  proof (cases "passThrough g c \<and> Index (g ! c) \<notin> V")
    case False
    then have "resolve_loop g V c = c" by (auto simp: resolve_loop_stop)
    with False show ?thesis by (intro exI [of _ 0]) auto
  next
    case True
    let ?V = "insert (Index (g ! c)) V"
    let ?n = "\<lambda>i. (nxt g ^^ i) c"
    have shift: "(nxt g ^^ i) (nxt g c) = ?n (Suc i)" for i
      by (simp add: funpow_swap1)
    from True have "c < length g \<and> isEmptyPassThrough (g ! c)" "Index (g ! c) \<notin> V"
      by (auto simp: passThrough_def)
    from 1 [OF this] obtain k where k:
      "resolve_loop g ?V (nxt g c) = ?n (Suc k)"
      "\<forall>i<k. passThrough g (?n (Suc i)) \<and> Index (g ! ?n (Suc i)) \<notin> ?V"
      "\<forall>i<k. \<forall>j<i. Index (g ! ?n (Suc j)) \<noteq> Index (g ! ?n (Suc i))"
      "\<not> passThrough g (?n (Suc k))
         \<or> Index (g ! ?n (Suc k)) \<in> ?V \<union> (\<lambda>i. Index (g ! ?n (Suc i))) ` {..<k}"
      unfolding nxt_def [symmetric] shift by blast
    have a: "resolve_loop g V c = ?n (Suc k)"
      using True k(1) by (simp add: resolve_loop_step)
    have b: "\<forall>i<Suc k. passThrough g (?n i) \<and> Index (g ! ?n i) \<notin> V"
    proof (intro allI impI)
      fix i assume "i < Suc k"
      then show "passThrough g (?n i) \<and> Index (g ! ?n i) \<notin> V"
        using True k(2) by (cases i) auto
    qed
    have c: "\<forall>i<Suc k. \<forall>j<i. Index (g ! ?n j) \<noteq> Index (g ! ?n i)"
    proof (intro allI impI)
      fix i j assume ij: "i < Suc k" "j < i"
      then obtain i' where i': "i = Suc i'" "i' < k" by (cases i) auto
      show "Index (g ! ?n j) \<noteq> Index (g ! ?n i)"
      proof (cases j)
        case 0
        then show ?thesis using k(2) i' by auto
      next
        case (Suc j')
        then show ?thesis using k(3) i' ij by auto
      qed
    qed
    have img: "?V \<union> (\<lambda>i. Index (g ! ?n (Suc i))) ` {..<k} = V \<union> (\<lambda>i. Index (g ! ?n i)) ` {..<Suc k}"
    proof -
      have "{..<Suc k} = insert 0 (Suc ` {..<k})"
        by (auto simp: lessThan_Suc_eq_insert_0)
      then show ?thesis by (auto simp: image_iff)
    qed
    have d: "\<not> passThrough g (?n (Suc k))
         \<or> Index (g ! ?n (Suc k)) \<in> V \<union> (\<lambda>i. Index (g ! ?n i)) ` {..<Suc k}"
      using k(4) unfolding img .
    from a b c d show ?thesis by blast
  qed
qed


lemma ptCycle_iff:
  "ptCycle g a \<longleftrightarrow>
     (\<exists>m. 1 \<le> m \<and> m \<le> length g \<and> (nxt g ^^ m) a = a \<and> (\<forall>i<m. passThrough g ((nxt g ^^ i) a)))"
  unfolding ptCycle_def list_ex_iff list_all_iff by (auto simp: less_Suc_eq_le)

text \<open>
  The result of the resolution is a block of the graph, resolves to itself, and is a
  pass-through block only when it lies on a cycle of pass-through blocks.
\<close>

lemma resolveDestination_result:
  assumes wf: "wf_cfg g" and c: "c < length g"
  defines "r \<equiv> resolveDestination g c"
  shows "r < length g"
    and "resolveDestination g r = r"
    and "isEmptyPassThrough (g ! r) \<Longrightarrow> ptCycle g r"
    and "\<exists>k\<le>length g. r = (nxt g ^^ k) c \<and> (\<forall>i<k. passThrough g ((nxt g ^^ i) c))"
proof -
  let ?n = "\<lambda>i. (nxt g ^^ i) c"
  obtain k where k:
    "r = ?n k"
    "\<forall>i<k. passThrough g (?n i)"
    "\<forall>i<k. \<forall>j<i. Index (g ! ?n j) \<noteq> Index (g ! ?n i)"
    "\<not> passThrough g (?n k) \<or> Index (g ! ?n k) \<in> (\<lambda>i. Index (g ! ?n i)) ` {..<k}"
    using resolve_loop_char [of g "{}" c] unfolding r_def resolveDestination_def by auto
  have inr: "?n i < length g" if "i \<le> k" for i
    using that
  proof (induction i)
    case 0
    then show ?case using c by simp
  next
    case (Suc i)
    then have "passThrough g (?n i)" using k(2) by simp
    then show ?case using nxt_in_graph [OF wf] by simp
  qed
  have "inj_on ?n {..<k}"
  proof (rule inj_onI)
    fix x y assume xy: "x \<in> {..<k}" "y \<in> {..<k}" "?n x = ?n y"
    show "x = y"
    proof (rule ccontr)
      assume "x \<noteq> y"
      then consider "x < y" | "y < x" by linarith
      then show False using k(3) xy by cases (simp_all, metis+)
    qed
  qed
  moreover have "?n ` {..<k} \<subseteq> {..<length g}" using inr by auto
  ultimately have "card {..<k} \<le> card {..<length g}"
    by (intro card_inj_on_le) auto
  then have kg: "k \<le> length g" by simp
  show rg: "r < length g" using inr [of k] k(1) by simp
  show "\<exists>k\<le>length g. r = (nxt g ^^ k) c \<and> (\<forall>i<k. passThrough g ((nxt g ^^ i) c))"
    using kg k(1,2) by blast
  have cyc: "ptCycle g r \<and> resolveDestination g r = r" if pt: "passThrough g r"
  proof -
    from pt k(1,4) obtain j where j: "j < k" "Index (g ! ?n j) = Index (g ! r)" by auto
    have "int (?n j) = int r"
      using j wf_cfg_Index [OF wf inr [of j]] wf_cfg_Index [OF wf rg] by simp
    then have rj: "r = ?n j" by simp
    define m where "m = k - j"
    have m: "1 \<le> m" "j + m = k" using j(1) by (simp_all add: m_def)
    have walk: "(nxt g ^^ i) r = ?n (i + j)" for i
      unfolding rj by (simp add: funpow_add)
    have ret: "(nxt g ^^ m) r = r"
      using walk [of m] m(2) k(1) by (simp add: add.commute)
    have pts: "\<forall>i<m. passThrough g ((nxt g ^^ i) r)"
      unfolding walk using k(2) m(2) by auto
    have "m \<le> length g" using m(2) kg by simp
    with m(1) ret pts have "ptCycle g r" unfolding ptCycle_iff by blast
    moreover have "resolveDestination g r = r"
    proof -
      have d: "\<forall>i<m. \<forall>j'<i. Index (g ! ((nxt g ^^ j') r)) \<noteq> Index (g ! ((nxt g ^^ i) r))"
        unfolding walk using k(3) m(2) by auto
      have "resolve_loop g {} r
        = resolve_loop g ({} \<union> (\<lambda>i. Index (g ! ((nxt g ^^ i) r))) ` {..<m}) ((nxt g ^^ m) r)"
        by (rule resolve_loop_walk) (use pts d in auto)
      also have "\<dots> = resolve_loop g ((\<lambda>i. Index (g ! ((nxt g ^^ i) r))) ` {..<m}) r"
        using ret by simp
      also have "\<dots> = r"
      proof (rule resolve_loop_stop)
        have "Index (g ! ((nxt g ^^ 0) r)) \<in> (\<lambda>i. Index (g ! ((nxt g ^^ i) r))) ` {..<m}"
          using m(1) by (intro imageI) simp
        then show "\<not> passThrough g r \<or> Index (g ! r) \<in> (\<lambda>i. Index (g ! ((nxt g ^^ i) r))) ` {..<m}"
          by simp
      qed
      finally show ?thesis by (simp add: resolveDestination_def)
    qed
    ultimately show ?thesis by simp
  qed
  show "resolveDestination g r = r"
  proof (cases "passThrough g r")
    case True
    then show ?thesis using cyc by simp
  next
    case False
    then show ?thesis by (simp add: resolveDestination_def resolve_loop_stop)
  qed
  show "ptCycle g r" if "isEmptyPassThrough (g ! r)"
    using cyc that rg by (simp add: passThrough_def)
qed

section \<open>Properties of the decimal identifiers\<close>

lemma digit_code: "d < 10 \<Longrightarrow> (of_char (digit d) :: nat) = 48 + d"
  by (simp add: digit_def)

lemma digit_inj: "d < 10 \<Longrightarrow> e < 10 \<Longrightarrow> digit d = digit e \<Longrightarrow> d = e"
proof -
  assume a: "d < 10" "e < 10" "digit d = digit e"
  have "(of_char (digit d) :: nat) = of_char (digit e)" by (simp only: a(3))
  then have "48 + d = 48 + e" by (simp only: digit_code [OF a(1)] digit_code [OF a(2)])
  then show ?thesis by (simp only: add_left_cancel)
qed

lemma code_minus: "(of_char (CHR ''-'') :: nat) = 45"
  by simp

lemma code_underscore: "(of_char (CHR ''_'') :: nat) = 95"
  by simp

lemma digit_not_special: "d < 10 \<Longrightarrow> digit d \<noteq> CHR ''-'' \<and> digit d \<noteq> CHR ''_''"
proof -
  assume d: "d < 10"
  have "(of_char (digit d) :: nat) \<noteq> 45" "(of_char (digit d) :: nat) \<noteq> 95"
    unfolding digit_code [OF d] using d by arith+
  then show ?thesis using code_minus code_underscore by metis
qed

declare showNat.simps [simp del]

lemma showNat_nonempty: "showNat n \<noteq> []"
  by (subst showNat.simps) simp


lemma showNat_small: "n < 10 \<Longrightarrow> showNat n = [digit n]"
  by (subst showNat.simps) simp

lemma showNat_big: "\<not> n < 10 \<Longrightarrow> showNat n = showNat (n div 10) @ [digit (n mod 10)]"
  by (subst showNat.simps) simp

lemma showNat_chars: "c \<in> set (showNat n) \<Longrightarrow> c \<noteq> CHR ''-'' \<and> c \<noteq> CHR ''_''"
proof (induction n rule: showNat.induct)
  case (1 n)
  show ?case
  proof (cases "n < 10")
    case True
    from 1(2) have "c = digit n" unfolding showNat_small [OF True] by simp
    then show ?thesis using digit_not_special [OF True] by (simp only: simp_thms)
  next
    case False
    have m: "n mod 10 < 10" by simp
    from 1(2) have "c \<in> set (showNat (n div 10)) \<or> c = digit (n mod 10)"
      unfolding showNat_big [OF False] by (simp only: set_append set_simps Un_iff insert_iff empty_iff simp_thms)
    then show ?thesis
    proof
      assume "c \<in> set (showNat (n div 10))"
      then show ?thesis by (rule 1(1) [OF False])
    next
      assume "c = digit (n mod 10)"
      then show ?thesis using digit_not_special [OF m] by (simp only: simp_thms)
    qed
  qed
qed

lemma showNat_inj: "showNat n = showNat m \<Longrightarrow> n = m"
proof (induction n arbitrary: m rule: showNat.induct)
  case (1 n)
  show ?case
  proof (cases "n < 10")
    case n: True
    show ?thesis
    proof (cases "m < 10")
      case True
      with n 1(2) have "digit n = digit m" by (simp add: showNat_small)
      with n True show ?thesis by (rule digit_inj)
    next
      case False
      with n 1(2) have "[digit n] = showNat (m div 10) @ [digit (m mod 10)]"
        by (simp add: showNat_small showNat_big)
      then show ?thesis using showNat_nonempty [of "m div 10"] by simp
    qed
  next
    case n: False
    show ?thesis
    proof (cases "m < 10")
      case True
      with n 1(2) have "showNat (n div 10) @ [digit (n mod 10)] = [digit m]"
        by (simp add: showNat_small showNat_big)
      then show ?thesis using showNat_nonempty [of "n div 10"] by simp
    next
      case False
      with n 1(2) have "showNat (n div 10) = showNat (m div 10)"
        "digit (n mod 10) = digit (m mod 10)"
        by (simp_all add: showNat_big)
      moreover have "n mod 10 < 10" "m mod 10 < 10" by simp_all
      ultimately have "n div 10 = m div 10" "n mod 10 = m mod 10"
        using 1(1) [OF n] digit_inj [of "n mod 10" "m mod 10"] by blast+
      then show ?thesis by (metis div_mult_mod_eq)
    qed
  qed
qed

lemma showInt_chars: "CHR ''_'' \<notin> set (showInt i)"
  using showNat_chars by (auto simp: showInt_def)

lemma showInt_inj: "showInt i = showInt j \<Longrightarrow> i = j"
proof -
  assume eq: "showInt i = showInt j"
  have hd: "hd (showNat n) \<noteq> CHR ''-''" for n
    using showNat_chars [of "hd (showNat n)" n] showNat_nonempty [of n] by simp
  show ?thesis
  proof (cases "i < 0"; cases "j < 0")
    assume "i < 0" "j < 0"
    with eq have "showNat (nat (- i)) = showNat (nat (- j))" by (simp add: showInt_def)
    then have "nat (- i) = nat (- j)" by (rule showNat_inj)
    with \<open>i < 0\<close> \<open>j < 0\<close> show ?thesis by simp
  next
    assume "i < 0" "\<not> j < 0"
    with eq have "CHR ''-'' # showNat (nat (- i)) = showNat (nat j)" by (simp add: showInt_def)
    with hd [of "nat j"] show ?thesis by (metis list.sel(1))
  next
    assume "\<not> i < 0" "j < 0"
    with eq have "showNat (nat i) = CHR ''-'' # showNat (nat (- j))" by (simp add: showInt_def)
    with hd [of "nat i"] show ?thesis by (metis list.sel(1))
  next
    assume "\<not> i < 0" "\<not> j < 0"
    with eq have "showNat (nat i) = showNat (nat j)" by (simp add: showInt_def)
    then have "nat i = nat j" by (rule showNat_inj)
    with \<open>\<not> i < 0\<close> \<open>\<not> j < 0\<close> show ?thesis by simp
  qed
qed

lemma ident_setup_differs: "''B'' @ showInt i @ ''_setup'' \<noteq> ''B'' @ showInt j"
proof
  assume "''B'' @ showInt i @ ''_setup'' = ''B'' @ showInt j"
  then have "showInt j = showInt i @ ''_setup''" by simp
  then have "CHR ''_'' \<in> set (showInt j)" by simp
  then show False using showInt_chars by simp
qed

lemma ident_setup_inj: "''B'' @ showInt i @ ''_setup'' = ''B'' @ showInt j @ ''_setup'' \<Longrightarrow> i = j"
  by (rule showInt_inj) simp

lemma ident_inj: "''B'' @ showInt i = ''B'' @ showInt j \<Longrightarrow> i = j"
  by (rule showInt_inj) simp

section \<open>Properties of the graph shaper\<close>

text \<open>
  C3. \<open>resolve_loop\<close> is a total function: its termination is proved above, by the number
  of block indices not yet visited, whatever the graph. For a block \<open>b\<close> of a well-formed
  graph the resolution returns after at most \<open>length g\<close> steps, which all leave
  pass-through blocks, it returns a block of the graph, and it is idempotent.
\<close>

theorem resolveDestination_idempotent:
  assumes "wf_cfg g" and "b < length g"
  shows "resolveDestination g b < length g
    \<and> (\<exists>k\<le>length g. resolveDestination g b = (nxt g ^^ k) b
          \<and> (\<forall>i<k. passThrough g ((nxt g ^^ i) b)))
    \<and> resolveDestination g (resolveDestination g b) = resolveDestination g b"
  using resolveDestination_result(1,2,4) [OF assms] by simp

theorem resolveDestination_idempotent_witness:
  "wf_cfg graphForever \<and> (0::nat) < length graphForever
   \<and> resolveDestination graphForever 0 = 1
   \<and> isEmptyPassThrough (graphForever ! 1)
   \<and> resolveDestination graphForever (resolveDestination graphForever 0)
       = resolveDestination graphForever 0"
proof -
  have h1: "wf_cfg graphForever" by code_simp
  have h2: "(0::nat) < length graphForever" by code_simp
  have h3: "resolveDestination graphForever 0 = 1" by code_simp
  have h4: "isEmptyPassThrough (graphForever ! 1)" by code_simp
  show ?thesis
    using resolveDestination_idempotent [OF h1 h2] h1 h2 h3 h4 by simp
qed



text \<open>
  C5 (as amended). The edges of a block to its successors are one edge for a single
  successor and a True and a False edge for two successors, each to the entry point of
  the resolved successor. The arrow of each is given by one function of the index of the
  block, the index of the resolved successor and the branch: the dashed arrow labelled
  Loop, Loop True or Loop False exactly when the index of the target is at most that of
  the source, and the plain arrow of the branch otherwise. The two other edges of the
  rendering are not classified: the edge from the set-up node of a split block to its
  condition node and the edge of the root node are always plain.
\<close>

theorem edgeLines_classified:
  "edgeLines g b = map (successorEdge g b) (branches (Succs b))
   \<and> (classifyEdge src tgt br = loopArrow br \<longleftrightarrow> tgt \<le> src)
   \<and> (classifyEdge src tgt br = forwardArrow br \<longleftrightarrow> \<not> tgt \<le> src)
   \<and> prefix ''-.->'' (loopArrow br) \<and> \<not> prefix ''-.->'' (forwardArrow br)
   \<and> prefix ''-->'' (forwardArrow br)
   \<and> filter isEdge (nodeLines pr b) =
        (if length (Nodes b) > 1 \<and> length (Succs b) = 2
         then [Edge (''B'' @ showInt (Index b) @ ''_setup'') ''-->'' (''B'' @ showInt (Index b))]
         else [])
   \<and> filter isEdge (prologue startFunc g) =
        [Edge ''ROOT'' ''-->'' (getEntryPoint (g ! resolveDestination g 0))]"
proof -
  have e: "edgeLines g b = map (successorEdge g b) (branches (Succs b))"
  proof (cases "Succs b")
    case Nil
    then show ?thesis by (simp add: edgeLines_def)
  next
    case (Cons s ss)
    note c1 = this
    show ?thesis
    proof (cases ss)
      case Nil
      with c1 show ?thesis
        by (simp add: edgeLines_def successorEdge_def classifyEdge_def Let_def)
    next
      case (Cons t ts)
      with c1 show ?thesis
        by (cases ts) (simp_all add: edgeLines_def successorEdge_def classifyEdge_def Let_def)
    qed
  qed
  have ne: "loopArrow br \<noteq> forwardArrow br" by (cases br) simp_all
  have c: "(classifyEdge src tgt br = loopArrow br \<longleftrightarrow> tgt \<le> src)"
    "(classifyEdge src tgt br = forwardArrow br \<longleftrightarrow> \<not> tgt \<le> src)"
    using ne by (auto simp: classifyEdge_def)
  have p: "prefix ''-.->'' (loopArrow br)" "\<not> prefix ''-.->'' (forwardArrow br)"
    "prefix ''-->'' (forwardArrow br)"
    by (cases br; simp)+
  have n: "filter isEdge (nodeLines pr b) =
        (if length (Nodes b) > 1 \<and> length (Succs b) = 2
         then [Edge (''B'' @ showInt (Index b) @ ''_setup'') ''-->'' (''B'' @ showInt (Index b))]
         else [])"
    by (simp add: nodeLines_def Let_def)
  have r: "filter isEdge (prologue startFunc g) =
        [Edge ''ROOT'' ''-->'' (getEntryPoint (g ! resolveDestination g 0))]"
    by (simp add: prologue_def)
  show ?thesis
    by (rule conjI [OF e conjI [OF c(1) conjI [OF c(2) conjI [OF p(1) conjI [OF p(2)
        conjI [OF p(3) conjI [OF n r]]]]]]])
qed

text \<open>
  C5 as stated fails for the edge inside a split block: in the rendering of
  \<open>graphSetup\<close> the edge from the set-up node of block 0 to its condition node has
  source and target in the same block, so the index of the target is at most that of the
  source, and its arrow is the plain one, not the dashed Loop arrow of the rule.
\<close>

theorem setup_edge_counterexample:
  "renderLines (identPrinter ()) ''f'' graphSetup
     = Inr (prologue ''f'' graphSetup @
         [NodeDecl ''B0_setup'' (''['' @ [dquote]) ''Set x to y'' ([dquote] @ '']'') [],
          NodeDecl ''B0'' (''{'' @ [dquote]) ''x is greater than 0'' ([dquote] @ ''}'') [],
          Edge ''B0_setup'' ''-->'' ''B0'',
          Edge ''B0'' ''-->|True|'' ''B1'',
          Edge ''B0'' ''-->|False|'' ''B2'',
          NodeDecl ''B1'' (''['' @ [dquote]) ''Return 1'' ([dquote] @ '']'') '':::endNode'',
          NodeDecl ''B2'' (''['' @ [dquote]) ''Return 0'' ([dquote] @ '']'') '':::endNode'',
          NodeDecl ''B4'' (''['' @ [dquote]) ''End / Return'' ([dquote] @ '']'') '':::endNode''])
   \<and> Index (graphSetup ! 0) \<le> Index (graphSetup ! 0)
   \<and> classifyEdge (Index (graphSetup ! 0)) (Index (graphSetup ! 0)) Plain = ''-.->|Loop|''
   \<and> ''-->'' \<noteq> ''-.->|Loop|''"
  by code_simp

section \<open>Properties of the renderer\<close>

lemma blockLoop_concat: "blockLoop pr g buf bs = buf @ concat (map (renderBlock pr g) bs)"
  by (induction bs arbitrary: buf) (simp_all add: renderBlock_def)

lemma renderLines_concat:
  "g \<noteq> [] \<Longrightarrow> renderLines pr startFunc g
     = Inr (prologue startFunc g @ concat (map (renderBlock pr g) g))"
  by (simp add: renderLines_def prologue_def blockLoop_concat Let_def)

lemma renderLines_empty: "renderLines pr startFunc [] = Inl IndexOutOfRange"
  by (simp add: renderLines_def)

lemma renderLines_Inr:
  assumes "renderLines pr startFunc g = Inr ls"
  shows "g \<noteq> []" and "ls = prologue startFunc g @ concat (map (renderBlock pr g) g)"
proof -
  show ne: "g \<noteq> []" using assms renderLines_empty by auto
  show "ls = prologue startFunc g @ concat (map (renderBlock pr g) g)"
    using assms renderLines_concat [OF ne, of pr startFunc] by simp
qed

lemma in_rendered:
  assumes "renderLines pr startFunc g = Inr ls"
  shows "l \<in> set ls \<longleftrightarrow>
     l \<in> set (prologue startFunc g)
     \<or> (\<exists>b\<in>set g. \<not> isEmptyPassThrough b \<and> (l \<in> set (nodeLines pr b) \<or> l \<in> set (edgeLines g b)))"
  unfolding renderLines_Inr(2) [OF assms] by (auto simp: renderBlock_def)

text \<open>What the lines of each part declare and target.\<close>

lemma prologue_declared: "l \<in> set (prologue startFunc g) \<Longrightarrow> declared l = None"
  by (auto simp: prologue_def)

lemma prologue_target:
  "l \<in> set (prologue startFunc g) \<Longrightarrow> edgeTarget l = Some t \<Longrightarrow>
   t = getEntryPoint (g ! resolveDestination g 0)"
  by (auto simp: prologue_def)

lemma nodeLines_declared:
  "l \<in> set (nodeLines pr b) \<Longrightarrow> declared l = Some i \<Longrightarrow> i \<in> blockIds b"
  by (auto simp: nodeLines_def blockIds_def Let_def split: if_splits)

lemma nodeLines_target:
  "l \<in> set (nodeLines pr b) \<Longrightarrow> edgeTarget l = Some t \<Longrightarrow> t = ''B'' @ showInt (Index b)"
  by (auto simp: nodeLines_def Let_def split: if_splits)

lemma edgeLines_declared: "l \<in> set (edgeLines g b) \<Longrightarrow> declared l = None"
  by (auto simp: edgeLines_def Let_def split: if_splits)

lemma edgeLines_target:
  "l \<in> set (edgeLines g b) \<Longrightarrow> edgeTarget l = Some t \<Longrightarrow>
   \<exists>s\<in>set (Succs b). t = getEntryPoint (g ! resolveDestination g s)"
proof -
  assume l: "l \<in> set (edgeLines g b)" and t: "edgeTarget l = Some t"
  consider "length (Succs b) = 1" | "length (Succs b) = 2"
    | "length (Succs b) \<noteq> 1 \<and> length (Succs b) \<noteq> 2" by blast
  then show ?thesis
  proof cases
    case 1
    then obtain s where "Succs b = [s]" by (auto simp: length_Suc_conv)
    with l t show ?thesis by (auto simp: edgeLines_def Let_def)
  next
    case 2
    then obtain s u where "Succs b = [s, u]"
      by (auto simp: length_Suc_conv numeral_2_eq_2)
    with l t show ?thesis by (auto simp: edgeLines_def Let_def)
  next
    case 3
    with l show ?thesis by (simp add: edgeLines_def)
  qed
qed

lemma getEntryPoint_blockIds: "getEntryPoint b \<in> blockIds b"
  by (simp add: getEntryPoint_def blockIds_def)

lemma plain_blockIds: "''B'' @ showInt (Index b) \<in> blockIds b"
  by (simp add: blockIds_def)

text \<open>In a well-formed graph an identifier belongs to one block only.\<close>

lemma blockIds_Index: "i \<in> blockIds a \<Longrightarrow> i \<in> blockIds b \<Longrightarrow> Index a = Index b"
proof -
  assume a: "i \<in> blockIds a" and b: "i \<in> blockIds b"
  from a consider "i = ''B'' @ showInt (Index a)" | "i = ''B'' @ showInt (Index a) @ ''_setup''"
    unfolding blockIds_def by blast
  then show ?thesis
  proof cases
    case 1
    from b consider "i = ''B'' @ showInt (Index b)" | "i = ''B'' @ showInt (Index b) @ ''_setup''"
      unfolding blockIds_def by blast
    then show ?thesis
    proof cases
      case 1
      with \<open>i = ''B'' @ showInt (Index a)\<close> show ?thesis by (metis ident_inj)
    next
      case 2
      with \<open>i = ''B'' @ showInt (Index a)\<close> show ?thesis by (metis ident_setup_differs)
    qed
  next
    case 2
    from b consider "i = ''B'' @ showInt (Index b)" | "i = ''B'' @ showInt (Index b) @ ''_setup''"
      unfolding blockIds_def by blast
    then show ?thesis
    proof cases
      case 1
      with \<open>i = ''B'' @ showInt (Index a) @ ''_setup''\<close> show ?thesis
        by (metis ident_setup_differs)
    next
      case 2
      with \<open>i = ''B'' @ showInt (Index a) @ ''_setup''\<close> show ?thesis
        by (metis ident_setup_inj)
    qed
  qed
qed

lemma blockIds_position:
  assumes "wf_cfg g" "p < length g" "q < length g" "i \<in> blockIds (g ! p)" "i \<in> blockIds (g ! q)"
  shows "p = q"
proof -
  have "Index (g ! p) = Index (g ! q)" using assms(4,5) by (rule blockIds_Index)
  then have "int p = int q"
    using wf_cfg_Index [OF assms(1,2)] wf_cfg_Index [OF assms(1,3)] by simp
  then show ?thesis by simp
qed

lemma wf_cfg_Succs: "wf_cfg g \<Longrightarrow> b \<in> set g \<Longrightarrow> s \<in> set (Succs b) \<Longrightarrow> s < length g"
  unfolding wf_cfg_iff by (metis in_set_conv_nth)

lemma nodeLines_edge_split:
  "l \<in> set (nodeLines pr b) \<Longrightarrow> edgeTarget l = Some t \<Longrightarrow>
   length (Nodes b) > 1 \<and> length (Succs b) = 2"
  by (auto simp: nodeLines_def Let_def split: if_splits)

lemma rendered_cases:
  assumes "renderLines pr startFunc g = Inr ls" and "l \<in> set ls"
  obtains "l \<in> set (prologue startFunc g)"
    | b where "b \<in> set g" "\<not> isEmptyPassThrough b" "l \<in> set (nodeLines pr b)"
    | b where "b \<in> set g" "\<not> isEmptyPassThrough b" "l \<in> set (edgeLines g b)"
  using in_rendered [OF assms(1), of l] assms(2) by blast

lemma block_position:
  assumes "b \<in> set g"
  obtains q where "q < length g" "b = g ! q"
  using assms by (metis in_set_conv_nth)

lemma resolved_passThrough_cycle:
  assumes wf: "wf_cfg g" and a: "a < length g" and p: "p < length g"
    and pt: "isEmptyPassThrough (g ! p)"
    and t: "getEntryPoint (g ! resolveDestination g a) \<in> blockIds (g ! p)"
  shows "ptCycle g p"
proof -
  let ?r = "resolveDestination g a"
  have r: "?r < length g" using resolveDestination_result(1) [OF wf a] .
  have "p = ?r"
    using blockIds_position [OF wf p r t getEntryPoint_blockIds] .
  with pt show ?thesis using resolveDestination_result(3) [OF wf a] by simp
qed

text \<open>
  C8 (as amended). In the rendering of a well-formed graph no node is declared for a
  pass-through block, and an edge has a pass-through block as its target only when that
  block lies on a cycle of pass-through blocks. The target of every edge is the entry
  point of a resolved block, or the condition node of the split block the edge belongs to.
\<close>

theorem rendered_targets:
  assumes wf: "wf_cfg g" and r: "renderLines pr startFunc g = Inr ls"
    and p: "p < length g" and pt: "isEmptyPassThrough (g ! p)"
  shows "(\<forall>l\<in>set ls. \<forall>i. declared l = Some i \<longrightarrow> i \<notin> blockIds (g ! p))
    \<and> (\<forall>l\<in>set ls. \<forall>t. edgeTarget l = Some t \<longrightarrow> t \<in> blockIds (g ! p) \<longrightarrow> ptCycle g p)
    \<and> (\<forall>l\<in>set ls. \<forall>t. edgeTarget l = Some t \<longrightarrow>
          (\<exists>a<length g. t = getEntryPoint (g ! resolveDestination g a))
          \<or> (\<exists>b\<in>set g. length (Nodes b) > 1 \<and> length (Succs b) = 2
                \<and> t = ''B'' @ showInt (Index b)))"
proof (intro conjI ballI allI impI)
  fix l i
  assume l: "l \<in> set ls" and d: "declared l = Some i" 
  show "i \<notin> blockIds (g ! p)"
  proof
    assume i: "i \<in> blockIds (g ! p)"
    have "\<exists>b. b \<in> set g \<and> \<not> isEmptyPassThrough b \<and> l \<in> set (nodeLines pr b)"
    proof (rule rendered_cases [OF r l])
      assume "l \<in> set (prologue startFunc g)"
      then have "declared l = None" by (rule prologue_declared)
      with d show ?thesis by simp
    next
      fix b assume "b \<in> set g" "\<not> isEmptyPassThrough b" "l \<in> set (nodeLines pr b)"
      then show ?thesis by blast
    next
      fix b assume "l \<in> set (edgeLines g b)"
      then have "declared l = None" by (rule edgeLines_declared)
      with d show ?thesis by simp
    qed
    then obtain b where b: "b \<in> set g" "\<not> isEmptyPassThrough b" "l \<in> set (nodeLines pr b)"
      by blast
    from b(1) obtain q where q: "q < length g" "b = g ! q" by (rule block_position)
    have "i \<in> blockIds (g ! q)" using nodeLines_declared [OF b(3) d] q(2) by simp
    then have "p = q" using blockIds_position [OF wf p q(1) i] by simp
    with pt b(2) q(2) show False by simp
  qed
next
  fix l t
  assume l: "l \<in> set ls" and e: "edgeTarget l = Some t" and t: "t \<in> blockIds (g ! p)"
  have g0: "0 < length g" using renderLines_Inr(1) [OF r] by simp
  from r l show "ptCycle g p"
  proof (cases rule: rendered_cases)
    case 1
    then have "t = getEntryPoint (g ! resolveDestination g 0)" using e by (rule prologue_target)
    with t show ?thesis using resolved_passThrough_cycle [OF wf g0 p pt] by simp
  next
    case (2 b)
    from 2(1) obtain q where q: "q < length g" "b = g ! q" by (rule block_position)
    have "t = ''B'' @ showInt (Index b)" using 2(3) e by (rule nodeLines_target)
    then have "t \<in> blockIds (g ! q)" using plain_blockIds [of b] q(2) by simp
    then have "p = q" using blockIds_position [OF wf p q(1) t] by simp
    with pt 2(2) q(2) show ?thesis by simp
  next
    case (3 b)
    from edgeLines_target [OF 3(3) e] obtain s
      where s: "s \<in> set (Succs b)" "t = getEntryPoint (g ! resolveDestination g s)" by blast
    have "s < length g" using wf 3(1) s(1) by (rule wf_cfg_Succs)
    then show ?thesis using resolved_passThrough_cycle [OF wf _ p pt] t s(2) by simp
  qed
next
  fix l t
  assume l: "l \<in> set ls" and e: "edgeTarget l = Some t"
  have g0: "0 < length g" using renderLines_Inr(1) [OF r] by simp
  from r l show "(\<exists>a<length g. t = getEntryPoint (g ! resolveDestination g a))
          \<or> (\<exists>b\<in>set g. length (Nodes b) > 1 \<and> length (Succs b) = 2
                \<and> t = ''B'' @ showInt (Index b))"
  proof (cases rule: rendered_cases)
    case 1
    then have "t = getEntryPoint (g ! resolveDestination g 0)" using e by (rule prologue_target)
    with g0 show ?thesis by (intro disjI1 exI [of _ 0] conjI)
  next
    case (2 b)
    have "t = ''B'' @ showInt (Index b)" using 2(3) e by (rule nodeLines_target)
    moreover have "length (Nodes b) > 1 \<and> length (Succs b) = 2"
      using 2(3) e by (rule nodeLines_edge_split)
    ultimately have "length (Nodes b) > 1 \<and> length (Succs b) = 2
        \<and> t = ''B'' @ showInt (Index b)"
      by (simp only: simp_thms)
    then show ?thesis using 2(1) by (intro disjI2 bexI [of _ b])
  next
    case (3 b)
    from edgeLines_target [OF 3(3) e] obtain s
      where s: "s \<in> set (Succs b)" "t = getEntryPoint (g ! resolveDestination g s)" by blast
    have "s < length g" using wf 3(1) s(1) by (rule wf_cfg_Succs)
    with s(2) show ?thesis by (intro disjI1 exI [of _ s] conjI)
  qed
qed

theorem rendered_targets_witness:
  "wf_cfg graphForever
   \<and> renderLines (identPrinter ()) ''f'' graphForever
       = Inr (prologue ''f'' graphForever
              @ concat (map (renderBlock (identPrinter ()) graphForever) graphForever))
   \<and> (1::nat) < length graphForever
   \<and> isEmptyPassThrough (graphForever ! 1)
   \<and> ptCycle graphForever 1"
proof -
  let ?ls = "prologue ''f'' graphForever
              @ concat (map (renderBlock (identPrinter ()) graphForever) graphForever)"
  let ?e = "Edge ''ROOT'' ''-->'' (getEntryPoint (graphForever ! resolveDestination graphForever 0))"
  have h1: "wf_cfg graphForever" by code_simp
  have h2: "renderLines (identPrinter ()) ''f'' graphForever = Inr ?ls"
    by (rule renderLines_concat) (simp add: graphForever_def)
  have h3: "(1::nat) < length graphForever" by code_simp
  have h4: "isEmptyPassThrough (graphForever ! 1)" by code_simp
  have m: "?e \<in> set ?ls" by (simp add: prologue_def)
  have t: "getEntryPoint (graphForever ! resolveDestination graphForever 0)
      \<in> blockIds (graphForever ! 1)"
    by code_simp
  have "ptCycle graphForever 1"
    using rendered_targets [OF h1 h2 h3 h4] m t by (metis edgeTarget.simps(1))
  with h1 h2 h3 h4 show ?thesis by simp
qed

text \<open>
  C8 as stated fails when pass-through blocks form a cycle: for \<^verbatim>\<open>for { }\<close> the
  resolution of the entry block stops at the body, a pass-through block that jumps to
  itself, and the edge of the root node targets it, though no node is declared for it.
\<close>

theorem rendered_targets_counterexample:
  "wf_cfg graphForever
   \<and> isEmptyPassThrough (graphForever ! 1)
   \<and> ''B1'' \<in> blockIds (graphForever ! 1)
   \<and> renderLines (identPrinter ()) ''f'' graphForever
       = Inr (prologue ''f'' graphForever
          @ [NodeDecl ''B2'' (''['' @ [dquote]) ''End / Return'' ([dquote] @ '']'') '':::endNode''])
   \<and> prologue ''f'' graphForever ! 3 = Edge ''ROOT'' ''-->'' ''B1''"
  by code_simp

lemma nodeLines_declares_entry:
  "\<exists>l\<in>set (nodeLines pr b). declared l = Some (getEntryPoint b)"
  by (simp add: nodeLines_def getEntryPoint_def Let_def)

lemma nodeLines_declares_target:
  "l \<in> set (nodeLines pr b) \<Longrightarrow> edgeTarget l = Some t \<Longrightarrow>
   \<exists>l'\<in>set (nodeLines pr b). declared l' = Some t"
  by (auto simp: nodeLines_def Let_def split: if_splits)

lemma rendered_nodeLines:
  assumes "renderLines pr startFunc g = Inr ls" "b \<in> set g" "\<not> isEmptyPassThrough b"
    "l \<in> set (nodeLines pr b)"
  shows "l \<in> set ls"
  using in_rendered [OF assms(1), of l] assms(2-4) by blast

lemma entry_declared:
  assumes r: "renderLines pr startFunc g = Inr ls" and b: "b \<in> set g" "\<not> isEmptyPassThrough b"
  shows "\<exists>l\<in>set ls. declared l = Some (getEntryPoint b)"
proof -
  obtain l where l: "l \<in> set (nodeLines pr b)" "declared l = Some (getEntryPoint b)"
    using nodeLines_declares_entry by blast
  have "l \<in> set ls" using r b l(1) by (rule rendered_nodeLines)
  then show ?thesis using l(2) by (rule rev_bexI)
qed

lemma resolved_entry_declared:
  assumes wf: "wf_cfg g" and r: "renderLines pr startFunc g = Inr ls"
    and a: "a < length g" and d: "d < length g" "\<not> isEmptyPassThrough (g ! d)"
    and t: "getEntryPoint (g ! resolveDestination g a) \<in> blockIds (g ! d)"
  shows "\<exists>l\<in>set ls. declared l = Some (getEntryPoint (g ! resolveDestination g a))"
proof -
  have "resolveDestination g a < length g" using resolveDestination_result(1) [OF wf a] .
  then have "d = resolveDestination g a"
    using blockIds_position [OF wf d(1) _ t getEntryPoint_blockIds] by simp
  moreover have "g ! d \<in> set g" using d(1) by simp
  ultimately show ?thesis using entry_declared [OF r _ d(2)] by simp
qed

text \<open>
  C9. The entry point of a block is its set-up identifier exactly when the block has
  more than one statement and exactly two successors, which is the condition under which
  the renderer splits it, and its plain identifier otherwise. The rendering declares the
  entry point of every block that is not a pass-through block; so, in a well-formed
  graph, every edge whose target is an identifier of such a block names an identifier that
  the rendering declares.
\<close>

theorem entry_points_declared:
  "(getEntryPoint b = ''B'' @ showInt (Index b) @ ''_setup''
      \<longleftrightarrow> length (Nodes b) > 1 \<and> length (Succs b) = 2)
   \<and> (getEntryPoint b = ''B'' @ showInt (Index b)
      \<longleftrightarrow> \<not> (length (Nodes b) > 1 \<and> length (Succs b) = 2))
   \<and> (length (nodeLines pr b) = 3 \<longleftrightarrow> length (Nodes b) > 1 \<and> length (Succs b) = 2)
   \<and> (renderLines pr startFunc g = Inr ls \<and> b \<in> set g \<and> \<not> isEmptyPassThrough b \<longrightarrow>
        (\<exists>l\<in>set ls. declared l = Some (getEntryPoint b)))
   \<and> (wf_cfg g \<and> renderLines pr startFunc g = Inr ls \<longrightarrow>
        (\<forall>l\<in>set ls. \<forall>t. edgeTarget l = Some t \<longrightarrow>
           (\<forall>d<length g. t \<in> blockIds (g ! d) \<longrightarrow> \<not> isEmptyPassThrough (g ! d) \<longrightarrow>
              (\<exists>l'\<in>set ls. declared l' = Some t))))"
proof (intro conjI)
  define su where "su = ''B'' @ showInt (Index b) @ ''_setup''"
  define pl where "pl = ''B'' @ showInt (Index b)"
  have ne: "su \<noteq> pl" unfolding su_def pl_def by (rule ident_setup_differs)
  have ge: "getEntryPoint b = (if length (Nodes b) > 1 \<and> length (Succs b) = 2 then su else pl)"
    unfolding su_def pl_def by (rule getEntryPoint_def)
  have "getEntryPoint b = su \<longleftrightarrow> length (Nodes b) > 1 \<and> length (Succs b) = 2"
    using ne ge by auto
  then show "getEntryPoint b = ''B'' @ showInt (Index b) @ ''_setup''
      \<longleftrightarrow> length (Nodes b) > 1 \<and> length (Succs b) = 2"
    unfolding su_def .
  have "getEntryPoint b = pl \<longleftrightarrow> \<not> (length (Nodes b) > 1 \<and> length (Succs b) = 2)"
    using ne ge by auto
  then show "getEntryPoint b = ''B'' @ showInt (Index b)
      \<longleftrightarrow> \<not> (length (Nodes b) > 1 \<and> length (Succs b) = 2)"
    unfolding pl_def .
  show "length (nodeLines pr b) = 3 \<longleftrightarrow> length (Nodes b) > 1 \<and> length (Succs b) = 2"
    by (simp add: nodeLines_def Let_def)
  show "renderLines pr startFunc g = Inr ls \<and> b \<in> set g \<and> \<not> isEmptyPassThrough b \<longrightarrow>
        (\<exists>l\<in>set ls. declared l = Some (getEntryPoint b))"
    using entry_declared by blast
  show "wf_cfg g \<and> renderLines pr startFunc g = Inr ls \<longrightarrow>
        (\<forall>l\<in>set ls. \<forall>t. edgeTarget l = Some t \<longrightarrow>
           (\<forall>d<length g. t \<in> blockIds (g ! d) \<longrightarrow> \<not> isEmptyPassThrough (g ! d) \<longrightarrow>
              (\<exists>l'\<in>set ls. declared l' = Some t)))"
  proof (intro impI ballI allI, elim conjE)
    fix l t d
    assume wf: "wf_cfg g" and r: "renderLines pr startFunc g = Inr ls"
      and l: "l \<in> set ls" and e: "edgeTarget l = Some t"
      and d: "d < length g" "t \<in> blockIds (g ! d)" "\<not> isEmptyPassThrough (g ! d)"
    have g0: "0 < length g" using renderLines_Inr(1) [OF r] by simp
    from r l show "\<exists>l'\<in>set ls. declared l' = Some t"
    proof (cases rule: rendered_cases)
      case 1
      then have t: "t = getEntryPoint (g ! resolveDestination g 0)"
        using e by (rule prologue_target)
      show ?thesis
        using resolved_entry_declared [OF wf r g0 d(1,3)] d(2) unfolding t by simp
    next
      case (2 c)
      from nodeLines_declares_target [OF 2(3) e] obtain l'
        where l': "l' \<in> set (nodeLines pr c)" "declared l' = Some t" by blast
      have "l' \<in> set ls" using r 2(1,2) l'(1) by (rule rendered_nodeLines)
      then show ?thesis using l'(2) by (rule rev_bexI)
    next
      case (3 c)
      from edgeLines_target [OF 3(3) e] obtain s
        where s: "s \<in> set (Succs c)" "t = getEntryPoint (g ! resolveDestination g s)" by blast
      have sg: "s < length g" using wf 3(1) s(1) by (rule wf_cfg_Succs)
      show ?thesis
        using resolved_entry_declared [OF wf r sg d(1,3)] d(2) unfolding s(2) by simp
    qed
  qed
qed

theorem entry_points_declared_witness:
  "wf_cfg graphLoop
   \<and> renderLines (identPrinter ()) ''f'' graphLoop
       = Inr (prologue ''f'' graphLoop
              @ concat (map (renderBlock (identPrinter ()) graphLoop) graphLoop))
   \<and> graphLoop ! 3 \<in> set graphLoop \<and> \<not> isEmptyPassThrough (graphLoop ! 3)
   \<and> (\<exists>l\<in>set (prologue ''f'' graphLoop
              @ concat (map (renderBlock (identPrinter ()) graphLoop) graphLoop)).
         declared l = Some (getEntryPoint (graphLoop ! 3)))
   \<and> Edge ''ROOT'' ''-->'' (getEntryPoint (graphLoop ! resolveDestination graphLoop 0))
        \<in> set (prologue ''f'' graphLoop
              @ concat (map (renderBlock (identPrinter ()) graphLoop) graphLoop))
   \<and> getEntryPoint (graphLoop ! resolveDestination graphLoop 0) \<in> blockIds (graphLoop ! 0)
   \<and> \<not> isEmptyPassThrough (graphLoop ! 0)
   \<and> (\<exists>l\<in>set (prologue ''f'' graphLoop
              @ concat (map (renderBlock (identPrinter ()) graphLoop) graphLoop)).
         declared l = Some (getEntryPoint (graphLoop ! resolveDestination graphLoop 0)))"
proof -
  let ?ls = "prologue ''f'' graphLoop
              @ concat (map (renderBlock (identPrinter ()) graphLoop) graphLoop)"
  let ?t = "getEntryPoint (graphLoop ! resolveDestination graphLoop 0)"
  have h1: "wf_cfg graphLoop" by code_simp
  have h2: "renderLines (identPrinter ()) ''f'' graphLoop = Inr ?ls"
    by (rule renderLines_concat) (simp add: graphLoop_def)
  have h3: "graphLoop ! 3 \<in> set graphLoop" by (simp add: graphLoop_def)
  have h4: "\<not> isEmptyPassThrough (graphLoop ! 3)" by code_simp
  have h5: "Edge ''ROOT'' ''-->'' ?t \<in> set ?ls" by (simp add: prologue_def)
  have h6: "edgeTarget (Edge ''ROOT'' ''-->'' ?t) = Some ?t" by simp
  have h7: "(0::nat) < length graphLoop" by code_simp
  have h8: "?t \<in> blockIds (graphLoop ! 0)" by code_simp
  have h9: "\<not> isEmptyPassThrough (graphLoop ! 0)" by code_simp
  note th = entry_points_declared [of "graphLoop ! 3" "identPrinter ()" "''f''" graphLoop ?ls]
  have a: "\<exists>l\<in>set ?ls. declared l = Some (getEntryPoint (graphLoop ! 3))"
    by (rule th [THEN conjunct2, THEN conjunct2, THEN conjunct2, THEN conjunct1, THEN mp,
        OF conjI [OF h2 conjI [OF h3 h4]]])
  note c5 = th [THEN conjunct2, THEN conjunct2, THEN conjunct2, THEN conjunct2, THEN mp,
        OF conjI [OF h1 h2]]
  have b: "\<exists>l'\<in>set ?ls. declared l' = Some ?t"
    by (rule c5 [rule_format, OF h5 h6 h7 h8 h9])
  from h1 h2 h3 h4 a h5 h8 h9 b show ?thesis by (simp only: simp_thms)
qed

section \<open>Properties of the whole rendering\<close>











section \<open>Properties of the search for the function\<close>









end
